theory Spec2Isabelle
  imports Main "HOL-Library.Sublist" "HOL-Library.Multiset"
begin

section \<open>Python strings\<close>

text \<open>
  A Python \<^verbatim>\<open>str\<close> is a sequence of Unicode code points and \<^verbatim>\<open>len\<close> counts code
  points, so a string is modelled as a list of code points (natural numbers).
  ASCII literals of the source are written \<open>ascii ''...''\<close>.
\<close>

type_synonym pychar = nat
type_synonym pystr = "pychar list"

definition ascii :: "string \<Rightarrow> pystr" where
  "ascii s = map of_char s"

definition LF :: pychar where "LF = 10"
definition CR :: pychar where "CR = 13"

text \<open>
  The line boundaries of \<^verbatim>\<open>str.splitlines\<close> (Python library documentation):
  \<^verbatim>\<open>\n \r \r\n \v \f \x1c \x1d \x1e \x85 \u2028 \u2029\<close>.
\<close>

definition is_linebreak :: "pychar \<Rightarrow> bool" where
  "is_linebreak c = (c \<in> set [10, 11, 12, 13, 28, 29, 30, 133, 8232, 8233])"

text \<open>
  \<^verbatim>\<open>s.splitlines(keepends)\<close>: scan to the next line boundary, take \<^verbatim>\<open>\r\n\<close> as one
  boundary, keep the boundary in the line when \<open>keepends\<close>; a last line with no
  boundary is returned when it is not empty. \<open>cur\<close> is the line being scanned,
  \<open>brk\<close> its boundary.
\<close>

definition emit_line :: "bool \<Rightarrow> pystr \<Rightarrow> pystr \<Rightarrow> pystr" where
  "emit_line keepends cur brk = (if keepends then cur @ brk else cur)"

fun splitlines_acc :: "bool \<Rightarrow> pystr \<Rightarrow> pystr \<Rightarrow> pystr list" where
  "splitlines_acc keepends cur [] = (if cur = [] then [] else [cur])"
| "splitlines_acc keepends cur (c # cs) =
     (if c = CR then
        (case cs of
           [] \<Rightarrow> [emit_line keepends cur [c]]
         | d # ds \<Rightarrow>
             if d = LF then emit_line keepends cur [c, d] # splitlines_acc keepends [] ds
             else emit_line keepends cur [c] # splitlines_acc keepends [] cs)
      else if is_linebreak c then emit_line keepends cur [c] # splitlines_acc keepends [] cs
      else splitlines_acc keepends (cur @ [c]) cs)"

definition splitlines :: "bool \<Rightarrow> pystr \<Rightarrow> pystr list" where
  "splitlines keepends s = splitlines_acc keepends [] s"

section \<open>diff\_utils.chunk\_text\<close>

text \<open>
  \<^verbatim>\<open>
  def chunk_text(s, max_chars=12000):
      parts, cur, size = [], [], 0
      for ln in s.splitlines(keepends=True):
          ln_len = len(ln)
          if size + ln_len > max_chars and cur:
              parts.append("".join(cur))
              cur, size = [ln], ln_len
          else:
              cur.append(ln); size += ln_len
      if cur:
          parts.append("".join(cur))
      return parts
  \<close>
  The loop state is the triple \<open>(parts, cur, sz)\<close> (\<open>sz\<close> is the source's \<^verbatim>\<open>size\<close>);
  \<open>max_chars\<close> is a Python int.
\<close>

type_synonym chunk_state = "pystr list \<times> pystr list \<times> int"

fun chunk_step :: "int \<Rightarrow> pystr \<Rightarrow> chunk_state \<Rightarrow> chunk_state" where
  "chunk_step max_chars ln (parts, cur, sz) =
     (let ln_len = int (length ln) in
      if sz + ln_len > max_chars \<and> cur \<noteq> []
      then (parts @ [concat cur], [ln], ln_len)
      else (parts, cur @ [ln], sz + ln_len))"

definition chunk_text :: "pystr \<Rightarrow> int \<Rightarrow> pystr list" where
  "chunk_text s max_chars =
     (case fold (chunk_step max_chars) (splitlines True s) ([], [], 0) of
        (parts, cur, sz) \<Rightarrow> if cur \<noteq> [] then parts @ [concat cur] else parts)"

text \<open>A group of lines in which a line longer than the budget stands alone.\<close>

definition long_line_alone :: "int \<Rightarrow> pystr list \<Rightarrow> bool" where
  "long_line_alone max_chars g = (\<forall>l \<in> set g. max_chars < int (length l) \<longrightarrow> g = [l])"

section \<open>The file header pattern\<close>

text \<open>
  \<^verbatim>\<open>FILE_HEADER_RE = re.compile(r"^diff --git a/(?P<a>.+) b/(?P<b>.+)$", re.MULTILINE)\<close>
  (the same pattern in diff\_utils.py and github\_api.py). With \<^verbatim>\<open>re.MULTILINE\<close>,
  \<^verbatim>\<open>^\<close> matches at the start of the text and after each \<^verbatim>\<open>\n\<close>, \<^verbatim>\<open>$\<close> at the end
  of the text and before each \<^verbatim>\<open>\n\<close>, and \<^verbatim>\<open>.\<close> matches every character but
  \<^verbatim>\<open>\n\<close>: a match is a whole \<^verbatim>\<open>\n\<close>-delimited line.
\<close>

record re_match =
  m_start :: nat
  group_a :: pystr
  group_b :: pystr

text \<open>The \<^verbatim>\<open>\n\<close>-delimited lines of a text, without their \<^verbatim>\<open>\n\<close>.\<close>

fun split_lf_acc :: "pystr \<Rightarrow> pystr \<Rightarrow> pystr list" where
  "split_lf_acc cur [] = [cur]"
| "split_lf_acc cur (c # cs) =
     (if c = LF then cur # split_lf_acc [] cs else split_lf_acc (cur @ [c]) cs)"

text \<open>
  The greedy \<^verbatim>\<open>(?P<a>.+)\<close> first takes the whole rest of the line and gives characters
  back one at a time, down to one character; \<open>k\<close> is the length tried for group a.
  What follows it must be \<^verbatim>\<open> b/\<close> and then a non-empty group b up to the end of
  the line.
\<close>

fun greedy_split :: "pystr \<Rightarrow> nat \<Rightarrow> (pystr \<times> pystr) option" where
  "greedy_split rest 0 = None"
| "greedy_split rest (Suc k) =
     (if take 3 (drop (Suc k) rest) = ascii '' b/'' \<and> drop (Suc k + 3) rest \<noteq> []
      then Some (take (Suc k) rest, drop (Suc k + 3) rest)
      else greedy_split rest k)"

definition match_header_line :: "pystr \<Rightarrow> (pystr \<times> pystr) option" where
  "match_header_line ln =
     (if take 13 ln = ascii ''diff --git a/''
      then greedy_split (drop 13 ln) (length (drop 13 ln))
      else None)"

text \<open>\<^verbatim>\<open>FILE_HEADER_RE.finditer(text)\<close>: the matching lines, left to right, with their offsets.\<close>

fun header_matches_from :: "nat \<Rightarrow> pystr list \<Rightarrow> re_match list" where
  "header_matches_from pos [] = []"
| "header_matches_from pos (ln # lns) =
     (case match_header_line ln of
        Some (a, b) \<Rightarrow>
          \<lparr>m_start = pos, group_a = a, group_b = b\<rparr>
            # header_matches_from (pos + length ln + 1) lns
      | None \<Rightarrow> header_matches_from (pos + length ln + 1) lns)"

definition finditer :: "pystr \<Rightarrow> re_match list" where
  "finditer text = header_matches_from 0 (split_lf_acc [] text)"

text \<open>\<^verbatim>\<open>FILE_HEADER_RE.search(text)\<close>: the first match, if any.\<close>

definition search :: "pystr \<Rightarrow> re_match option" where
  "search text = (case finditer text of [] \<Rightarrow> None | m # ms \<Rightarrow> Some m)"

section \<open>diff\_utils.extract\_changed\_files\<close>

text \<open>
  \<^verbatim>\<open>
  def extract_changed_files(diff_text):
      files, seen, uniq = [], set(), []
      for m in FILE_HEADER_RE.finditer(diff_text):
          path_b = m.group("b")
          files.append(path_b)
      for f in files:
          if f not in seen:
              uniq.append(f); seen.add(f)
      return uniq
  \<close>
\<close>

definition header_paths :: "pystr \<Rightarrow> pystr list" where
  "header_paths diff_text = map group_b (finditer diff_text)"

fun uniq_loop :: "pystr list \<Rightarrow> pystr list \<times> pystr set \<Rightarrow> pystr list" where
  "uniq_loop [] (uniq, seen) = uniq"
| "uniq_loop (f # fs) (uniq, seen) =
     (if f \<notin> seen then uniq_loop fs (uniq @ [f], insert f seen)
      else uniq_loop fs (uniq, seen))"

definition extract_changed_files :: "pystr \<Rightarrow> pystr list" where
  "extract_changed_files diff_text = uniq_loop (header_paths diff_text) ([], {})"

text \<open>
  The elements of a list at the positions where they occur for the first time, in the
  order of the list.
\<close>

definition first_occurrences :: "'a list \<Rightarrow> 'a list" where
  "first_occurrences xs =
     map ((!) xs) (filter (\<lambda>i. xs ! i \<notin> set (take i xs)) [0..<length xs])"

section \<open>github\_api: generated-file classification\<close>

text \<open>
  Exceptions: \<^verbatim>\<open>re.error\<close>, which \<^verbatim>\<open>_is_generated_path\<close> catches by name, and every
  other subclass of \<^verbatim>\<open>Exception\<close>, such as the \<^verbatim>\<open>OverflowError\<close> that \<^verbatim>\<open>re.search\<close>
  raises for a pattern with a repetition count that is too large.
\<close>

datatype exn = ReError | OtherException

text \<open>
  The Python library functions the classifier calls are parameters of the model:
  \<^verbatim>\<open>fnmatch.fnmatch(name, pat)\<close> and \<^verbatim>\<open>re.search(pattern, string, flags=re.IGNORECASE)\<close>
  (its result read as a truth value), each returning or raising, and \<^verbatim>\<open>str.lower\<close>.
\<close>

record py_library =
  fnmatch :: "pystr \<Rightarrow> pystr \<Rightarrow> exn + bool"
  re_search :: "pystr \<Rightarrow> pystr \<Rightarrow> exn + bool"
  lower :: "pystr \<Rightarrow> pystr"

text \<open>\<^verbatim>\<open>str.isspace\<close> for one code point, and \<^verbatim>\<open>str.strip()\<close>.\<close>

definition is_space :: "pychar \<Rightarrow> bool" where
  "is_space c =
     ((9 \<le> c \<and> c \<le> 13) \<or> (28 \<le> c \<and> c \<le> 32) \<or> c = 133 \<or> c = 160 \<or> c = 5760
      \<or> (8192 \<le> c \<and> c \<le> 8202) \<or> c = 8232 \<or> c = 8233 \<or> c = 8239 \<or> c = 8287
      \<or> c = 12288)"

definition strip :: "pystr \<Rightarrow> pystr" where
  "strip s = rev (dropWhile is_space (rev (dropWhile is_space s)))"

text \<open>
  \<^verbatim>\<open>
  def _is_generated_path(path, globs, file_regex):
      p = (path or "").strip()
      for g in globs or []:
          try:
              if fnmatch.fnmatch(p, g):
                  return True
          except Exception:
              pass
      if file_regex:
          try:
              if re.search(file_regex, p, flags=re.IGNORECASE):
                  return True
          except re.error:
              pass
      return False
  \<close>
  \<open>glob_loop\<close> is the \<^verbatim>\<open>for\<close> loop: \<open>True\<close> when it returns \<^verbatim>\<open>True\<close>, \<open>False\<close> when it
  runs to its end.
\<close>

fun glob_loop :: "py_library \<Rightarrow> pystr \<Rightarrow> pystr list \<Rightarrow> bool" where
  "glob_loop lib p [] = False"
| "glob_loop lib p (g # gs) =
     (case fnmatch lib p g of
        Inr True \<Rightarrow> True
      | Inr False \<Rightarrow> glob_loop lib p gs
      | Inl e \<Rightarrow> glob_loop lib p gs)"

definition is_generated_path :: "py_library \<Rightarrow> pystr \<Rightarrow> pystr list \<Rightarrow> pystr \<Rightarrow> exn + bool" where
  "is_generated_path lib path globs file_regex =
     (let p = strip path in
      if glob_loop lib p globs then Inr True
      else if file_regex \<noteq> [] then
        (case re_search lib file_regex p of
           Inr True \<Rightarrow> Inr True
         | Inr False \<Rightarrow> Inr False
         | Inl ReError \<Rightarrow> Inr False
         | Inl OtherException \<Rightarrow> Inl OtherException)
      else Inr False)"

text \<open>
  \<^verbatim>\<open>
  def _has_generated_markers(block_text, markers, head_lines=120):
      if not markers:
          return False
      head = "\n".join(block_text.splitlines()[:head_lines]).lower()
      for m in markers:
          mm = (m or "").lower()
          if mm and mm in head:
              return True
      return False
  \<close>
\<close>

fun str_join :: "pystr \<Rightarrow> pystr list \<Rightarrow> pystr" where
  "str_join sep [] = []"
| "str_join sep [x] = x"
| "str_join sep (x # y # ys) = x @ sep @ str_join sep (y # ys)"

fun marker_loop :: "py_library \<Rightarrow> pystr \<Rightarrow> pystr list \<Rightarrow> bool" where
  "marker_loop lib head [] = False"
| "marker_loop lib head (m # ms) =
     (let mm = lower lib m in
      if mm \<noteq> [] \<and> sublist mm head then True else marker_loop lib head ms)"

definition has_generated_markers :: "py_library \<Rightarrow> pystr \<Rightarrow> pystr list \<Rightarrow> nat \<Rightarrow> bool" where
  "has_generated_markers lib block_text markers head_lines =
     (if markers = [] then False
      else marker_loop lib
             (lower lib (str_join [LF] (take head_lines (splitlines False block_text))))
             markers)"

section \<open>github\_api.filter\_out\_generated\_diffs\<close>

text \<open>
  The configuration keys the filter reads. For \<open>skip_generated\<close>, \<open>None\<close> is an absent
  key, for which \<^verbatim>\<open>cfg.get("skip_generated", True)\<close> is \<^verbatim>\<open>True\<close>. For the other keys
  \<open>None\<close> is an absent key or the value \<^verbatim>\<open>None\<close>, which \<^verbatim>\<open>or\<close> replaces by the empty
  list or string.
\<close>

record config =
  skip_generated :: "bool option"
  generated_path_globs :: "pystr list option"
  generated_file_regex :: "pystr option"
  generated_header_markers :: "pystr list option"

text \<open>Python's \<^verbatim>\<open>s[i:j]\<close> for indices that are not negative.\<close>

definition slice :: "pystr \<Rightarrow> nat \<Rightarrow> nat \<Rightarrow> pystr" where
  "slice s i j = drop i (take j s)"

text \<open>
  \<^verbatim>\<open>
      starts = [m.start() for m in FILE_HEADER_RE.finditer(diff_text)]
      ...
      starts.append(len(diff_text))  # sentinel
      blocks = [diff_text[starts[i]:starts[i + 1]] for i in range(len(starts) - 1)]
  \<close>
\<close>

definition header_starts :: "pystr \<Rightarrow> nat list" where
  "header_starts diff_text = map m_start (finditer diff_text)"

definition blocks_of :: "pystr \<Rightarrow> nat list \<Rightarrow> pystr list" where
  "blocks_of diff_text starts =
     map (\<lambda>i. slice diff_text (starts ! i) (starts ! (i + 1))) [0..<length starts - 1]"

text \<open>
  The body of the loop over the blocks:
  \<^verbatim>\<open>
          m = FILE_HEADER_RE.search(blk)
          b_path = (m.group("b") if m else "") or ""
          if b_path.startswith("b/"):
              b_path = b_path[2:]
          is_gen = _is_generated_path(b_path, globs, file_rx) or _has_generated_markers(blk, markers)
          if is_gen:
              skipped.append(b_path or "(unknown)")
          else:
              kept.append(blk)
  \<close>
\<close>

definition block_path :: "pystr \<Rightarrow> pystr" where
  "block_path blk =
     (let b_path = (case search blk of Some m \<Rightarrow> group_b m | None \<Rightarrow> []) in
      if prefix (ascii ''b/'') b_path then drop 2 b_path else b_path)"

definition block_is_gen ::
  "py_library \<Rightarrow> pystr list \<Rightarrow> pystr \<Rightarrow> pystr list \<Rightarrow> pystr \<Rightarrow> exn + bool" where
  "block_is_gen lib globs file_rx markers blk =
     (case is_generated_path lib (block_path blk) globs file_rx of
        Inl e \<Rightarrow> Inl e
      | Inr True \<Rightarrow> Inr True
      | Inr False \<Rightarrow> Inr (has_generated_markers lib blk markers 120))"

definition skipped_name :: "pystr \<Rightarrow> pystr" where
  "skipped_name blk = (if block_path blk = [] then ascii ''(unknown)'' else block_path blk)"

fun filter_loop ::
  "py_library \<Rightarrow> pystr list \<Rightarrow> pystr \<Rightarrow> pystr list \<Rightarrow> pystr list
     \<Rightarrow> pystr list \<times> pystr list \<Rightarrow> exn + (pystr list \<times> pystr list)" where
  "filter_loop lib globs file_rx markers [] (kept, skipped) = Inr (kept, skipped)"
| "filter_loop lib globs file_rx markers (blk # blks) (kept, skipped) =
     (case block_is_gen lib globs file_rx markers blk of
        Inl e \<Rightarrow> Inl e
      | Inr True \<Rightarrow>
          filter_loop lib globs file_rx markers blks (kept, skipped @ [skipped_name blk])
      | Inr False \<Rightarrow>
          filter_loop lib globs file_rx markers blks (kept @ [blk], skipped))"

text \<open>
  \<^verbatim>\<open>
  def filter_out_generated_diffs(diff_text, cfg):
      if not diff_text:
          return diff_text, []
      if not cfg.get("skip_generated", True):
          return diff_text, []
      globs = cfg.get("generated_path_globs") or []
      file_rx = cfg.get("generated_file_regex") or ""
      markers = cfg.get("generated_header_markers") or []
      starts = [m.start() for m in FILE_HEADER_RE.finditer(diff_text)]
      if not starts:
          return diff_text, []
      starts.append(len(diff_text))  # sentinel
      blocks = [...]
      kept, skipped = [], []
      for blk in blocks: ...
      return "".join(kept), skipped
  \<close>
  The result is \<open>Inl\<close> when an exception leaves the function.
\<close>

definition cfg_enabled :: "config \<Rightarrow> bool" where
  "cfg_enabled cfg = (case skip_generated cfg of None \<Rightarrow> True | Some v \<Rightarrow> v)"

definition cfg_globs :: "config \<Rightarrow> pystr list" where
  "cfg_globs cfg = (case generated_path_globs cfg of None \<Rightarrow> [] | Some v \<Rightarrow> v)"

definition cfg_file_rx :: "config \<Rightarrow> pystr" where
  "cfg_file_rx cfg = (case generated_file_regex cfg of None \<Rightarrow> [] | Some v \<Rightarrow> v)"

definition cfg_markers :: "config \<Rightarrow> pystr list" where
  "cfg_markers cfg = (case generated_header_markers cfg of None \<Rightarrow> [] | Some v \<Rightarrow> v)"

definition diff_blocks :: "pystr \<Rightarrow> pystr list" where
  "diff_blocks diff_text = blocks_of diff_text (header_starts diff_text @ [length diff_text])"

definition filter_out_generated_diffs ::
  "py_library \<Rightarrow> pystr \<Rightarrow> config \<Rightarrow> exn + (pystr \<times> pystr list)" where
  "filter_out_generated_diffs lib diff_text cfg =
     (if diff_text = [] then Inr (diff_text, [])
      else if \<not> cfg_enabled cfg then Inr (diff_text, [])
      else if header_starts diff_text = [] then Inr (diff_text, [])
      else
        (case filter_loop lib (cfg_globs cfg) (cfg_file_rx cfg) (cfg_markers cfg)
                (diff_blocks diff_text) ([], []) of
           Inl e \<Rightarrow> Inl e
         | Inr (kept, skipped) \<Rightarrow> Inr (concat kept, skipped)))"

text \<open>The text before the first header line (the whole text when there is none).\<close>

definition preamble :: "pystr \<Rightarrow> pystr" where
  "preamble d = (case header_starts d of [] \<Rightarrow> d | s # ss \<Rightarrow> take s d)"

text \<open>
  A block goes to the skipped list when filtering is enabled and the body of the loop
  finds it generated.
\<close>

definition is_skipped :: "py_library \<Rightarrow> config \<Rightarrow> pystr \<Rightarrow> bool" where
  "is_skipped lib cfg blk =
     (cfg_enabled cfg
      \<and> block_is_gen lib (cfg_globs cfg) (cfg_file_rx cfg) (cfg_markers cfg) blk = Inr True)"

text \<open>The length of the text that a list of \<^verbatim>\<open>\n\<close>-delimited lines came from, plus one.\<close>

definition lines_len :: "pystr list \<Rightarrow> nat" where
  "lines_len lns = (\<Sum>l\<leftarrow>lns. length l + 1)"

section \<open>Python dicts\<close>

text \<open>
  A \<^verbatim>\<open>dict\<close> iterates in insertion order: it is an association list with one pair for
  each key. \<^verbatim>\<open>d[k] = v\<close> replaces the value of a key that is present, in place, and
  appends the pair of a new key.
\<close>

type_synonym ('k, 'v) pydict = "('k \<times> 'v) list"

fun dict_setitem :: "('k, 'v) pydict \<Rightarrow> 'k \<Rightarrow> 'v \<Rightarrow> ('k, 'v) pydict" where
  "dict_setitem [] k v = [(k, v)]"
| "dict_setitem ((k', v') # kvs) k v =
     (if k' = k then (k, v) # kvs else (k', v') # dict_setitem kvs k v)"

section \<open>Running the selected models\<close>

text \<open>
  What a call of a backend does: it returns a text (or \<^verbatim>\<open>None\<close>), or raises an
  exception \<open>e\<close>, of which the code keeps \<^verbatim>\<open>str(e)\<close>. The call itself
  (\<^verbatim>\<open>single_model_review\<close>, \<^verbatim>\<open>_single_model_file_history_summary\<close> with the other
  arguments fixed) is a parameter.
  \<^verbatim>\<open>
  def run_one(mname):
      try:
          out = single_model_review(self.cfg, mname, diff, meta)
          return mname, out
      except Exception as e:
          return mname, e
  \<close>
\<close>

type_synonym outcome = "pystr + pystr option"
type_synonym backend = "pystr \<Rightarrow> outcome"

definition run_one :: "backend \<Rightarrow> pystr \<Rightarrow> pystr \<times> outcome" where
  "run_one call mname = (mname, call mname)"

text \<open>
  ui.py, \<^verbatim>\<open>App.on_review\<close>, the body of both loops:
  \<^verbatim>\<open>
      if isinstance(res2, Exception):
          errors[mname] = str(res2); results[mname] = ""
      else:
          results[mname] = res2 or ""
  \<close>
\<close>

definition or_empty :: "pystr option \<Rightarrow> pystr" where
  "or_empty res = (case res of None \<Rightarrow> [] | Some s \<Rightarrow> s)"

fun record_review ::
  "pystr \<times> outcome \<Rightarrow> (pystr, pystr) pydict \<times> (pystr, pystr) pydict
     \<Rightarrow> (pystr, pystr) pydict \<times> (pystr, pystr) pydict" where
  "record_review (mname, Inl msg) (results, errors) =
     (dict_setitem results mname [], dict_setitem errors mname msg)"
| "record_review (mname, Inr res2) (results, errors) =
     (dict_setitem results mname (or_empty res2), errors)"

text \<open>
  \<^verbatim>\<open>
      if bool(self.parallel_var.get()):
          with ThreadPoolExecutor(max_workers=min(len(selected_models), 8)) as ex:
              futs = [ex.submit(run_one, m) for m in selected_models]
              for f in as_completed(futs):
                  mname, res2 = f.result()
                  ...
      else:
          for m in selected_models:
              mname, res2 = run_one(m)
              ...
  \<close>
  \<open>par\<close> is \<^verbatim>\<open>bool(self.parallel_var.get())\<close>. \<open>futs\<close> holds what each task returns. \<^verbatim>\<open>as_completed(futs)\<close> yields every future once,
  in the order in which the tasks finish: that order is the list \<open>completion\<close> of
  indices into \<open>futs\<close>, a permutation of \<open>[0..<length futs]\<close> chosen by the scheduler.
  The loop that records the results runs in the calling thread.
\<close>

definition as_completed :: "nat list \<Rightarrow> 'a list \<Rightarrow> 'a list" where
  "as_completed completion futs = map ((!) futs) completion"

definition is_schedule :: "nat list \<Rightarrow> nat \<Rightarrow> bool" where
  "is_schedule completion n = (mset completion = mset [0..<n])"

definition on_review_run_models ::
  "backend \<Rightarrow> pystr list \<Rightarrow> bool \<Rightarrow> nat list
     \<Rightarrow> (pystr, pystr) pydict \<times> (pystr, pystr) pydict" where
  "on_review_run_models single_model_review selected_models par completion =
     (if par then
        (let futs = map (run_one single_model_review) selected_models in
         fold record_review (as_completed completion futs) ([], []))
      else fold record_review (map (run_one single_model_review) selected_models) ([], []))"

text \<open>
  file\_history\_tab.py, the same two loops with
  \<^verbatim>\<open>
      if isinstance(res, Exception):
          errors[mname] = str(res); results[mname] = ""
      else:
          results[mname] = res
  \<close>
\<close>

fun record_summary ::
  "pystr \<times> outcome \<Rightarrow> (pystr, pystr option) pydict \<times> (pystr, pystr) pydict
     \<Rightarrow> (pystr, pystr option) pydict \<times> (pystr, pystr) pydict" where
  "record_summary (mname, Inl msg) (results, errors) =
     (dict_setitem results mname (Some []), dict_setitem errors mname msg)"
| "record_summary (mname, Inr res) (results, errors) =
     (dict_setitem results mname res, errors)"

definition file_history_run_models ::
  "backend \<Rightarrow> pystr list \<Rightarrow> bool \<Rightarrow> nat list
     \<Rightarrow> (pystr, pystr option) pydict \<times> (pystr, pystr) pydict" where
  "file_history_run_models single_model_summary selected_models par completion =
     (if par then
        (let futs = map (run_one single_model_summary) selected_models in
         fold record_summary (as_completed completion futs) ([], []))
      else fold record_summary (map (run_one single_model_summary) selected_models) ([], []))"

section \<open>file\_history\_tab.synthesize\_file\_history\_with\_base\<close>

record header_meta =
  meta_owner :: pystr
  meta_repo :: pystr
  meta_path :: pystr
  meta_selected_shas :: "pystr list"
  meta_selected_count :: int
  meta_filtered_count :: int

text \<open>\<^verbatim>\<open>str(n)\<close> for an int, as an f-string formats it.\<close>

fun digits :: "nat \<Rightarrow> pystr" where
  "digits n = (if n < 10 then [48 + n] else digits (n div 10) @ [48 + n mod 10])"

definition str_of_int :: "int \<Rightarrow> pystr" where
  "str_of_int i = (if i < 0 then ascii ''-'' @ digits (nat (- i)) else digits (nat i))"

text \<open>
  \<^verbatim>\<open>
      srcs = []
      for m, content in summaries_by_model.items():
          if content:
              srcs.append(f"### Model: {m}\n{content}")
  \<close>
\<close>

fun synthesis_sources :: "(pystr, pystr option) pydict \<Rightarrow> pystr list" where
  "synthesis_sources [] = []"
| "synthesis_sources ((m, content) # items) =
     (case content of
        Some c \<Rightarrow>
          if c \<noteq> [] then (ascii ''### Model: '' @ m @ [LF] @ c) # synthesis_sources items
          else synthesis_sources items
      | None \<Rightarrow> synthesis_sources items)"

definition synth_user :: pystr where
  "synth_user = ascii (''You are given multiple per-commit summaries for the SAME file. ''
     @ ''Produce a SINGLE best summary that follows the requested template, preserving distinct TABLE blocks per commit. ''
     @ ''Merge overlapping points, keep concrete descriptions, include 'Other Files Modified' sections only when present, ''
     @ ''and ensure 'Likely Reasons' are concise bullet points. ''
     @ ''Conclude with a single 'Overall Narrative' expressed as bullet points.'')"

definition synthesis_header :: "header_meta \<Rightarrow> pystr \<Rightarrow> pystr list" where
  "synthesis_header meta hint =
     [ascii ''Repository: '' @ meta_owner meta @ ascii ''/'' @ meta_repo meta,
      ascii ''File: '' @ meta_path meta,
      ascii ''Selected commits: ''
        @ str_join (ascii '', '') (map (take 7) (meta_selected_shas meta)),
      ascii ''Selected count: '' @ str_of_int (meta_selected_count meta),
      ascii ''Filtered list size: '' @ str_of_int (meta_filtered_count meta),
      hint]"

text \<open>
  The context message:
  \<^verbatim>\<open>"\n\n".join(srcs) if srcs else "No sources."\<close>
\<close>

definition synthesis_context :: "(pystr, pystr option) pydict \<Rightarrow> pystr" where
  "synthesis_context summaries_by_model =
     (let srcs = synthesis_sources summaries_by_model in
      if srcs \<noteq> [] then str_join [LF, LF] srcs else ascii ''No sources.'')"

datatype message = System_message pystr | User_message pystr

text \<open>
  The client that \<^verbatim>\<open>_make_client(cfg)\<close> returns (or the exception it raises) and the
  prompts \<^verbatim>\<open>(system, template, hint)\<close> that \<^verbatim>\<open>build_file_history_prompts(cfg)\<close> returns
  are parameters. The client is its call
  \<^verbatim>\<open>client.chat.completions.create(model=..., messages=...).choices[0].message.content\<close>,
  which returns the content of the answer or raises. The other arguments of the call
  (\<^verbatim>\<open>extra_headers\<close>, \<^verbatim>\<open>stream\<close>, \<^verbatim>\<open>temperature\<close>) are constants and are left out.
\<close>

type_synonym chat_client = "pystr \<Rightarrow> message list \<Rightarrow> exn + pystr option"

definition synthesis_messages ::
  "pystr \<times> pystr \<times> pystr \<Rightarrow> (pystr, pystr option) pydict \<Rightarrow> header_meta \<Rightarrow> message list" where
  "synthesis_messages prompts summaries_by_model meta =
     (case prompts of (system, template, hint) \<Rightarrow>
        [System_message system,
         User_message template,
         User_message (str_join [LF] (synthesis_header meta hint)),
         User_message synth_user,
         User_message (synthesis_context summaries_by_model)])"

definition synthesize_file_history_with_base ::
  "exn + chat_client \<Rightarrow> pystr \<times> pystr \<times> pystr \<Rightarrow> pystr
     \<Rightarrow> (pystr, pystr option) pydict \<Rightarrow> header_meta \<Rightarrow> exn + pystr option" where
  "synthesize_file_history_with_base make_client prompts base_model summaries_by_model meta =
     (case make_client of
        Inl e \<Rightarrow> Inl e
      | Inr client \<Rightarrow>
          client base_model (synthesis_messages prompts summaries_by_model meta))"

section \<open>What the loops over the models compute\<close>

text \<open>
  The entry a backend's outcome leaves in the result map (of \<^verbatim>\<open>on_review\<close>, and of the
  file history tab), the error map of a list of backends, and the order in which the
  loop records the backends: the submitted order, or the order of completion.
\<close>

definition review_entry :: "outcome \<Rightarrow> pystr" where
  "review_entry r = (case r of Inl msg \<Rightarrow> [] | Inr res2 \<Rightarrow> or_empty res2)"

definition summary_entry :: "outcome \<Rightarrow> pystr option" where
  "summary_entry r = (case r of Inl msg \<Rightarrow> Some [] | Inr res \<Rightarrow> res)"

fun error_entries :: "backend \<Rightarrow> pystr list \<Rightarrow> (pystr, pystr) pydict" where
  "error_entries call [] = []"
| "error_entries call (m # ms) =
     (case call m of Inl msg \<Rightarrow> (m, msg) # error_entries call ms
                   | Inr res \<Rightarrow> error_entries call ms)"

definition processing_order :: "pystr list \<Rightarrow> bool \<Rightarrow> nat list \<Rightarrow> pystr list" where
  "processing_order selected_models par completion =
     (if par then map ((!) selected_models) completion else selected_models)"

section \<open>Properties of splitlines\<close>

lemma concat_splitlines_acc:
  "concat (splitlines_acc True cur s) = cur @ s"
  by (induction True cur s rule: splitlines_acc.induct)
     (auto simp: emit_line_def split: list.splits)

lemma concat_splitlines: "concat (splitlines True s) = s"
  by (simp add: splitlines_def concat_splitlines_acc)

section \<open>Properties of chunk\_text\<close>

lemma concat_concat: "concat (map concat gs) = concat (concat gs)"
  by (induction gs) auto

lemma total_nonneg: "0 \<le> (\<Sum>x\<leftarrow>cur. int (length x))"
  by (induction cur) auto

lemma line_le_total:
  "l \<in> set cur \<Longrightarrow> int (length l) \<le> (\<Sum>x\<leftarrow>cur. int (length x))"
proof (induction cur)
  case Nil
  then show ?case by simp
next
  case (Cons x cur)
  then show ?case
    using total_nonneg [of cur] by auto
qed

lemma chunk_loop_groups:
  assumes "sz = (\<Sum>x\<leftarrow>cur. int (length x))"
    and "[] \<notin> set gs"
    and "\<forall>g \<in> set gs. long_line_alone m g"
    and "long_line_alone m cur"
  shows "\<exists>gs' cur' sz'.
           fold (chunk_step m) lns (map concat gs, cur, sz) = (map concat gs', cur', sz')
         \<and> concat gs' @ cur' = concat gs @ cur @ lns
         \<and> [] \<notin> set gs'
         \<and> (\<forall>g \<in> set gs'. long_line_alone m g)
         \<and> long_line_alone m cur'"
  using assms
proof (induction lns arbitrary: gs cur sz)
  case Nil
  then show ?case by auto
next
  case (Cons ln lns)
  show ?case
  proof (cases "sz + int (length ln) > m \<and> cur \<noteq> []")
    case True
    have step: "chunk_step m ln (map concat gs, cur, sz)
                  = (map concat (gs @ [cur]), [ln], int (length ln))"
      using True by simp
    have "\<exists>gs' cur' sz'.
            fold (chunk_step m) lns (map concat (gs @ [cur]), [ln], int (length ln))
              = (map concat gs', cur', sz')
          \<and> concat gs' @ cur' = concat (gs @ [cur]) @ [ln] @ lns
          \<and> [] \<notin> set gs'
          \<and> (\<forall>g \<in> set gs'. long_line_alone m g)
          \<and> long_line_alone m cur'"
      using Cons.prems True
      by (intro Cons.IH) (auto simp: long_line_alone_def)
    then show ?thesis
      using step by (simp del: chunk_step.simps map_append)
  next
    case False
    have step: "chunk_step m ln (map concat gs, cur, sz)
                  = (map concat gs, cur @ [ln], sz + int (length ln))"
      using False by auto
    have alone: "long_line_alone m (cur @ [ln])"
    proof (cases "cur = []")
      case True
      then show ?thesis by (simp add: long_line_alone_def)
    next
      case nonempty: False
      with False have le: "sz + int (length ln) \<le> m" by simp
      have "\<forall>l \<in> set cur. int (length l) \<le> m"
      proof
        fix l assume "l \<in> set cur"
        then have "int (length l) \<le> sz"
          using Cons.prems(1) line_le_total by simp
        with le show "int (length l) \<le> m" by simp
      qed
      moreover have "int (length ln) \<le> m"
      proof -
        have "0 \<le> sz" using Cons.prems(1) total_nonneg by simp
        with le show ?thesis by simp
      qed
      ultimately have "\<forall>l \<in> set (cur @ [ln]). \<not> m < int (length l)"
        by fastforce
      then show ?thesis
        unfolding long_line_alone_def by blast
    qed
    have "\<exists>gs' cur' sz'.
            fold (chunk_step m) lns (map concat gs, cur @ [ln], sz + int (length ln))
              = (map concat gs', cur', sz')
          \<and> concat gs' @ cur' = concat gs @ (cur @ [ln]) @ lns
          \<and> [] \<notin> set gs'
          \<and> (\<forall>g \<in> set gs'. long_line_alone m g)
          \<and> long_line_alone m cur'"
      using Cons.prems alone
      by (intro Cons.IH) auto
    then show ?thesis
      using step by (simp del: chunk_step.simps)
  qed
qed

text \<open>
  C1. For every string \<open>s\<close> and every budget (in particular every budget of at least 1),
  the chunks of \<open>chunk_text s max_chars\<close> are the concatenations of consecutive
  non-empty groups \<open>gs\<close> of the lines of \<open>s\<close> (so no line is split across two chunks),
  a line longer than the budget is alone in its group, and the concatenation of the
  chunks is \<open>s\<close>.
\<close>

theorem chunk_text_whole_lines:
  assumes "1 \<le> max_chars"
  shows "(\<exists>gs. chunk_text s max_chars = map concat gs
              \<and> concat gs = splitlines True s
              \<and> [] \<notin> set gs
              \<and> (\<forall>g \<in> set gs. long_line_alone max_chars g))
       \<and> concat (chunk_text s max_chars) = s"
proof -
  obtain gs' cur' sz' where
    run: "fold (chunk_step max_chars) (splitlines True s) (map concat [], [], 0)
            = (map concat gs', cur', sz')"
    and lines: "concat gs' @ cur' = concat [] @ [] @ splitlines True s"
    and ne: "[] \<notin> set gs'"
    and alone: "\<forall>g \<in> set gs'. long_line_alone max_chars g"
    and alone_cur: "long_line_alone max_chars cur'"
    using chunk_loop_groups [of 0 "[]" "[]" max_chars "splitlines True s"]
    by (auto simp: long_line_alone_def)
  define gs where "gs = (if cur' \<noteq> [] then gs' @ [cur'] else gs')"
  have out: "chunk_text s max_chars = map concat gs"
    using run by (simp add: chunk_text_def gs_def)
  have whole: "concat gs = splitlines True s"
    using lines by (auto simp: gs_def)
  have "[] \<notin> set gs"
    using ne by (simp add: gs_def)
  moreover have "\<forall>g \<in> set gs. long_line_alone max_chars g"
    using alone alone_cur by (simp add: gs_def)
  moreover have "concat (chunk_text s max_chars) = s"
  proof -
    have "concat (map concat gs) = concat (concat gs)"
      by (rule concat_concat)
    then show ?thesis
      using out whole concat_splitlines by simp
  qed
  ultimately show ?thesis
    using out whole by blast
qed

theorem chunk_text_whole_lines_witness:
  "(1::int) \<le> 3
   \<and> chunk_text (ascii ''ab'' @ [LF] @ ascii ''cdefg'' @ [LF] @ ascii ''h'') 3
       = [ascii ''ab'' @ [LF], ascii ''cdefg'' @ [LF], ascii ''h'']
   \<and> (\<exists>gs. chunk_text (ascii ''ab'' @ [LF] @ ascii ''cdefg'' @ [LF] @ ascii ''h'') 3 = map concat gs
          \<and> concat gs = [ascii ''ab'' @ [LF], ascii ''cdefg'' @ [LF], ascii ''h'']
          \<and> [ascii ''cdefg'' @ [LF]] \<in> set gs)"
proof -
  let ?s = "ascii ''ab'' @ [LF] @ ascii ''cdefg'' @ [LF] @ ascii ''h''"
  let ?l = "ascii ''cdefg'' @ [LF]"
  have lines: "splitlines True ?s = [ascii ''ab'' @ [LF], ?l, ascii ''h'']"
    by (simp add: splitlines_def ascii_def LF_def CR_def is_linebreak_def emit_line_def)
  have run: "chunk_text ?s 3 = [ascii ''ab'' @ [LF], ?l, ascii ''h'']"
    unfolding chunk_text_def lines by (simp add: ascii_def)
  from chunk_text_whole_lines [of 3 ?s]
  obtain gs where gs: "chunk_text ?s 3 = map concat gs" "concat gs = splitlines True ?s"
    "\<forall>g \<in> set gs. long_line_alone 3 g"
    by auto
  have "?l \<in> set (concat gs)"
    using gs(2) lines by simp
  then obtain g where g: "g \<in> set gs" "?l \<in> set g" by auto
  have "(3::int) < int (length ?l)" by (simp add: ascii_def)
  with g gs(3) have "g = [?l]"
    unfolding long_line_alone_def by blast
  with g(1) have mem: "[?l] \<in> set gs" by simp
  have cat: "concat gs = [ascii ''ab'' @ [LF], ?l, ascii ''h'']"
    using gs(2) lines by simp
  have "\<exists>gs. chunk_text ?s 3 = map concat gs
          \<and> concat gs = [ascii ''ab'' @ [LF], ?l, ascii ''h'']
          \<and> [?l] \<in> set gs"
    using gs(1) cat mem by blast
  with run show ?thesis by simp
qed

section \<open>Properties of extract\_changed\_files\<close>

lemma first_occurrences_Nil: "first_occurrences [] = []"
  by (simp add: first_occurrences_def)

lemma first_occurrences_snoc:
  "first_occurrences (xs @ [x]) = first_occurrences xs @ (if x \<in> set xs then [] else [x])"
proof -
  let ?P = "\<lambda>i. (xs @ [x]) ! i \<notin> set (take i (xs @ [x]))"
  let ?Q = "\<lambda>i. xs ! i \<notin> set (take i xs)"
  have idx: "[0..<length (xs @ [x])] = [0..<length xs] @ [length xs]"
    by simp
  have f: "filter ?P [0..<length xs] = filter ?Q [0..<length xs]"
    by (rule filter_cong) (auto simp: nth_append)
  have m: "map ((!) (xs @ [x])) (filter ?Q [0..<length xs])
         = map ((!) xs) (filter ?Q [0..<length xs])"
    by (rule map_cong) (auto simp: nth_append)
  have "first_occurrences (xs @ [x])
          = map ((!) (xs @ [x])) (filter ?P [0..<length xs])
            @ map ((!) (xs @ [x])) (filter ?P [length xs])"
    unfolding first_occurrences_def idx filter_append map_append ..
  also have "map ((!) (xs @ [x])) (filter ?P [0..<length xs]) = first_occurrences xs"
    unfolding f m first_occurrences_def ..
  also have "map ((!) (xs @ [x])) (filter ?P [length xs]) = (if x \<in> set xs then [] else [x])"
    by simp
  finally show ?thesis .
qed

lemma set_first_occurrences: "set (first_occurrences xs) = set xs"
  by (induction xs rule: rev_induct) (auto simp: first_occurrences_snoc first_occurrences_Nil)

lemma distinct_first_occurrences: "distinct (first_occurrences xs)"
  by (induction xs rule: rev_induct)
     (auto simp: first_occurrences_snoc set_first_occurrences first_occurrences_Nil)

lemma uniq_loop_first_occurrences:
  "uniq_loop fs (first_occurrences pre, set pre) = first_occurrences (pre @ fs)"
proof (induction fs arbitrary: pre)
  case Nil
  then show ?case by simp
next
  case (Cons f fs)
  have "uniq_loop (f # fs) (first_occurrences pre, set pre)
          = uniq_loop fs (first_occurrences (pre @ [f]), set (pre @ [f]))"
    by (simp add: first_occurrences_snoc insert_absorb)
  also have "\<dots> = first_occurrences ((pre @ [f]) @ fs)"
    by (rule Cons.IH)
  finally show ?case by simp
qed

text \<open>
  C5. For every diff text, \<open>extract_changed_files\<close> returns the group-b paths of the
  header lines, each exactly once (the result is duplicate-free and has the same
  elements), namely the path at each position where it occurs for the first time, in
  the order of the headers.
\<close>

theorem extract_changed_files_first_occurrences:
  "extract_changed_files d = first_occurrences (header_paths d)
   \<and> distinct (extract_changed_files d)
   \<and> set (extract_changed_files d) = set (header_paths d)"
proof -
  have "extract_changed_files d = first_occurrences (header_paths d)"
    using uniq_loop_first_occurrences [of "header_paths d" "[]"]
    by (simp add: extract_changed_files_def first_occurrences_Nil)
  then show ?thesis
    by (simp add: distinct_first_occurrences set_first_occurrences)
qed

theorem extract_changed_files_first_occurrences_witness:
  "extract_changed_files
     (ascii ''diff --git a/x.py b/x.py'' @ [LF] @ ascii ''diff --git a/y.py b/y.py'' @ [LF]
      @ ascii ''diff --git a/x.py b/x.py'')
   = [ascii ''x.py'', ascii ''y.py'']
   \<and> header_paths
     (ascii ''diff --git a/x.py b/x.py'' @ [LF] @ ascii ''diff --git a/y.py b/y.py'' @ [LF]
      @ ascii ''diff --git a/x.py b/x.py'')
   = [ascii ''x.py'', ascii ''y.py'', ascii ''x.py'']"
proof -
  let ?d = "ascii ''diff --git a/x.py b/x.py'' @ [LF] @ ascii ''diff --git a/y.py b/y.py'' @ [LF]
      @ ascii ''diff --git a/x.py b/x.py''"
  have hp: "header_paths ?d = [ascii ''x.py'', ascii ''y.py'', ascii ''x.py'']"
    by (simp add: header_paths_def finditer_def match_header_line_def ascii_def LF_def
        numeral_3_eq_3 eval_nat_numeral)
  have "first_occurrences [ascii ''x.py'', ascii ''y.py'', ascii ''x.py'']
          = [ascii ''x.py'', ascii ''y.py'']"
    by (simp add: first_occurrences_def ascii_def upt_rec)
  with extract_changed_files_first_occurrences [of ?d] hp show ?thesis
    by simp
qed

section \<open>Properties of the classifier\<close>

lemma glob_loop_iff:
  "glob_loop lib p globs = (\<exists>g \<in> set globs. fnmatch lib p g = Inr True)"
  by (induction globs) (auto split: sum.splits bool.splits)

lemma is_generated_path_value:
  assumes "re_search lib rx (strip path) \<noteq> Inl OtherException"
  shows "is_generated_path lib path globs rx
           = Inr ((\<exists>g \<in> set globs. fnmatch lib (strip path) g = Inr True)
                  \<or> (rx \<noteq> [] \<and> re_search lib rx (strip path) = Inr True))"
  using assms
  by (auto simp: is_generated_path_def glob_loop_iff Let_def split: sum.splits bool.splits exn.splits)

text \<open>
  A glob for which \<open>fnmatch\<close> raises, and a regex for which \<open>re.search\<close> raises
  \<^verbatim>\<open>re.error\<close>, count as no match (lemma \<open>is_generated_path_value\<close>). Any other
  exception of \<open>re.search\<close> leaves \<open>is_generated_path\<close>.
\<close>

text \<open>
  C8. A regex that \<open>re.search\<close> rejects with an exception other than \<^verbatim>\<open>re.error\<close>
  aborts classification: with the pattern \<^verbatim>\<open>a{99999999999}\<close>, for which \<open>re.search\<close>
  raises \<^verbatim>\<open>OverflowError\<close>, \<open>is_generated_path\<close> raises, the decision for a block
  whose marker rule matches is the exception and not a boolean, and
  \<open>filter_out_generated_diffs\<close> raises.
\<close>

theorem uncaught_regex_exception_aborts:
  "is_generated_path
     \<lparr>fnmatch = (\<lambda>p g. Inr False),
      re_search = (\<lambda>r p. if r = ascii ''a{99999999999}'' then Inl OtherException else Inr False),
      lower = (\<lambda>s. s)\<rparr>
     (ascii ''a.py'') [] (ascii ''a{99999999999}'') = Inl OtherException
   \<and> has_generated_markers
     \<lparr>fnmatch = (\<lambda>p g. Inr False),
      re_search = (\<lambda>r p. if r = ascii ''a{99999999999}'' then Inl OtherException else Inr False),
      lower = (\<lambda>s. s)\<rparr>
     (ascii ''diff --git a/a.py b/a.py'' @ [LF] @ ascii ''# generated'' @ [LF])
     [ascii ''generated''] 120
   \<and> block_is_gen
     \<lparr>fnmatch = (\<lambda>p g. Inr False),
      re_search = (\<lambda>r p. if r = ascii ''a{99999999999}'' then Inl OtherException else Inr False),
      lower = (\<lambda>s. s)\<rparr>
     [] (ascii ''a{99999999999}'') [ascii ''generated'']
     (ascii ''diff --git a/a.py b/a.py'' @ [LF] @ ascii ''# generated'' @ [LF])
     = Inl OtherException
   \<and> filter_out_generated_diffs
     \<lparr>fnmatch = (\<lambda>p g. Inr False),
      re_search = (\<lambda>r p. if r = ascii ''a{99999999999}'' then Inl OtherException else Inr False),
      lower = (\<lambda>s. s)\<rparr>
     (ascii ''diff --git a/a.py b/a.py'' @ [LF] @ ascii ''# generated'' @ [LF])
     \<lparr>skip_generated = None, generated_path_globs = None,
      generated_file_regex = Some (ascii ''a{99999999999}''),
      generated_header_markers = Some [ascii ''generated'']\<rparr>
     = Inl OtherException"
proof -
  let ?lib = "\<lparr>fnmatch = (\<lambda>p g. Inr False),
      re_search = (\<lambda>r p. if r = ascii ''a{99999999999}'' then Inl OtherException else Inr False),
      lower = (\<lambda>s. s)\<rparr>"
  let ?rx = "ascii ''a{99999999999}''"
  define blk where "blk = ascii ''diff --git a/a.py b/a.py'' @ [LF] @ ascii ''# generated'' @ [LF]"
  have rx: "?rx \<noteq> []" by (simp add: ascii_def)
  have path: "is_generated_path ?lib p [] ?rx = Inl OtherException" for p
    using rx by (simp add: is_generated_path_def)
  have lines: "splitlines False blk = [ascii ''diff --git a/a.py b/a.py'', ascii ''# generated'']"
    by (simp add: blk_def splitlines_def ascii_def LF_def CR_def is_linebreak_def emit_line_def)
  have "sublist (ascii ''generated'')
          (ascii ''diff --git a/a.py b/a.py'' @ [LF] @ ascii ''# generated'')"
    unfolding sublist_def by (intro exI [of _ "ascii ''diff --git a/a.py b/a.py'' @ [LF] @ ascii ''# ''"] exI [of _ "[]"]) (simp add: ascii_def)
  then have mark: "has_generated_markers ?lib blk [ascii ''generated''] 120"
    unfolding has_generated_markers_def lines by (simp add: ascii_def)
  have gen: "block_is_gen ?lib [] ?rx [ascii ''generated''] blk = Inl OtherException"
    unfolding block_is_gen_def path by simp
  have hs: "header_starts blk = [0]"
    by (simp add: blk_def header_starts_def finditer_def match_header_line_def ascii_def LF_def
        eval_nat_numeral)
  have bs: "diff_blocks blk = [blk]"
    unfolding diff_blocks_def hs by (simp add: blocks_of_def slice_def)
  have ne: "blk \<noteq> []" by (simp add: blk_def)
  have run: "filter_out_generated_diffs ?lib blk
     \<lparr>skip_generated = None, generated_path_globs = None,
      generated_file_regex = Some ?rx,
      generated_header_markers = Some [ascii ''generated'']\<rparr> = Inl OtherException"
    unfolding filter_out_generated_diffs_def bs hs
    using ne gen
    by (simp add: cfg_enabled_def cfg_globs_def cfg_file_rx_def cfg_markers_def)
  show ?thesis
    using path [of "ascii ''a.py''"] mark gen run unfolding blk_def by simp
qed

lemma filter_loop_value:
  assumes "\<forall>b \<in> set bs. \<not> isl (block_is_gen lib globs rx markers b)"
  shows "filter_loop lib globs rx markers bs (kept, skipped)
           = Inr (kept @ filter (\<lambda>b. block_is_gen lib globs rx markers b \<noteq> Inr True) bs,
                  skipped @ map skipped_name (filter (\<lambda>b. block_is_gen lib globs rx markers b = Inr True) bs))"
  using assms
proof (induction bs arbitrary: kept skipped)
  case Nil
  then show ?case by simp
next
  case (Cons b bs)
  then show ?case
    by (cases "block_is_gen lib globs rx markers b") (auto split: bool.splits)
qed

lemma filter_loop_returns:
  assumes "filter_loop lib globs rx markers bs (kept, skipped) = Inr (kept', skipped')"
  shows "kept' = kept @ filter (\<lambda>b. block_is_gen lib globs rx markers b \<noteq> Inr True) bs
       \<and> skipped' = skipped
             @ map skipped_name (filter (\<lambda>b. block_is_gen lib globs rx markers b = Inr True) bs)
       \<and> (\<forall>b \<in> set bs. \<not> isl (block_is_gen lib globs rx markers b))"
  using assms
proof (induction bs arbitrary: kept skipped)
  case Nil
  then show ?case by simp
next
  case (Cons b bs)
  show ?case
  proof (cases "block_is_gen lib globs rx markers b")
    case (Inl e)
    with Cons.prems show ?thesis by simp
  next
    case (Inr g)
    show ?thesis
    proof (cases g)
      case True
      with Inr Cons.prems
      have "filter_loop lib globs rx markers bs (kept, skipped @ [skipped_name b])
              = Inr (kept', skipped')"
        by simp
      from Cons.IH [OF this] show ?thesis
        using Inr True by simp
    next
      case False
      with Inr Cons.prems
      have "filter_loop lib globs rx markers bs (kept @ [b], skipped) = Inr (kept', skipped')"
        by simp
      from Cons.IH [OF this] show ?thesis
        using Inr False by simp
    qed
  qed
qed

lemma filter_loop_raises:
  assumes "b \<in> set bs" and "isl (block_is_gen lib globs rx markers b)"
  shows "isl (filter_loop lib globs rx markers bs (kept, skipped))"
  using assms
proof (induction bs arbitrary: kept skipped)
  case Nil
  then show ?case by simp
next
  case (Cons x xs)
  show ?case
  proof (cases "block_is_gen lib globs rx markers x")
    case (Inl e)
    then show ?thesis by simp
  next
    case (Inr g)
    then have "b \<in> set xs" using Cons.prems by auto
    from Cons.IH [OF this Cons.prems(2)] show ?thesis
      using Inr by (cases g) simp_all
  qed
qed

section \<open>The blocks of a diff\<close>

lemma lines_len_split: "lines_len (split_lf_acc cur s) = length cur + length s + 1"
  by (induction cur s rule: split_lf_acc.induct) (auto simp: lines_len_def)

lemma header_matches_bounds:
  "m \<in> set (header_matches_from pos lns) \<Longrightarrow> pos \<le> m_start m \<and> m_start m < pos + lines_len lns"
  by (induction pos lns rule: header_matches_from.induct)
     (fastforce simp: lines_len_def split: option.splits)+

lemma header_matches_sorted:
  "sorted (map m_start (header_matches_from pos lns))"
proof (induction pos lns rule: header_matches_from.induct)
  case (1 pos)
  then show ?case by simp
next
  case (2 pos ln lns)
  show ?case
  proof (cases "match_header_line ln")
    case None
    with 2 show ?thesis by simp
  next
    case (Some ab)
    obtain a b where ab: "ab = (a, b)" by (cases ab)
    have "\<forall>m \<in> set (header_matches_from (pos + length ln + 1) lns). pos \<le> m_start m"
      using header_matches_bounds by fastforce
    with 2 Some ab show ?thesis by simp
  qed
qed

lemma header_starts_sorted: "sorted (header_starts d)"
  by (simp add: header_starts_def finditer_def header_matches_sorted)

lemma header_starts_le: "s \<in> set (header_starts d) \<Longrightarrow> s \<le> length d"
proof -
  assume "s \<in> set (header_starts d)"
  then obtain m where m: "m \<in> set (header_matches_from 0 (split_lf_acc [] d))" "s = m_start m"
    by (auto simp: header_starts_def finditer_def)
  from header_matches_bounds [OF m(1)] have "m_start m < length d + 1"
    by (simp add: lines_len_split)
  with m(2) show ?thesis by simp
qed

lemma blocks_of_Cons2:
  "blocks_of d (s0 # s1 # ss) = slice d s0 s1 # blocks_of d (s1 # ss)"
proof -
  have "[0..<length (s0 # s1 # ss) - 1] = 0 # map Suc [0..<length (s1 # ss) - 1]"
    by (simp add: upt_conv_Cons map_Suc_upt del: upt_Suc)
  then show ?thesis
    by (simp add: blocks_of_def comp_def del: upt_Suc)
qed

lemma blocks_of_single: "blocks_of d [s] = []"
  by (simp add: blocks_of_def)

lemma concat_blocks_of:
  "sorted (ss @ [n]) \<Longrightarrow> ss \<noteq> [] \<Longrightarrow> concat (blocks_of d (ss @ [n])) = drop (hd ss) (take n d)"
proof (induction ss)
  case Nil
  then show ?case by simp
next
  case (Cons s0 ss)
  show ?case
  proof (cases ss)
    case Nil
    then show ?thesis
      using blocks_of_Cons2 [of d s0 n "[]"] by (simp add: blocks_of_single slice_def)
  next
    case (Cons s1 ss')
    have le: "s0 \<le> s1" "s1 \<le> n"
      using Cons.prems(1) Cons by auto
    have "concat (blocks_of d ((s0 # ss) @ [n]))
            = slice d s0 s1 @ concat (blocks_of d (ss @ [n]))"
      using Cons blocks_of_Cons2 [of d s0 s1 "ss' @ [n]"] by simp
    also have "concat (blocks_of d (ss @ [n])) = drop s1 (take n d)"
      using Cons.IH Cons.prems Cons by simp
    also have "slice d s0 s1 @ drop s1 (take n d) = drop s0 (take n d)"
    proof -
      have "take s1 d = take s1 (take n d)" using le by (simp add: min_def)
      then have "slice d s0 s1 = drop s0 (take s1 (take n d))" by (simp add: slice_def)
      also have "\<dots> = take (s1 - s0) (drop s0 (take n d))"
        using le by (simp add: drop_take min_def)
      finally have a: "slice d s0 s1 = take (s1 - s0) (drop s0 (take n d))" .
      have b: "drop s1 (take n d) = drop (s1 - s0) (drop s0 (take n d))"
        using le by simp
      show ?thesis unfolding a b by (rule append_take_drop_id)
    qed
    finally show ?thesis by simp
  qed
qed

lemma concat_diff_blocks:
  "header_starts d \<noteq> [] \<Longrightarrow> concat (diff_blocks d) = drop (hd (header_starts d)) d"
proof -
  assume ne: "header_starts d \<noteq> []"
  have "sorted (header_starts d @ [length d])"
    using header_starts_sorted header_starts_le by (auto simp: sorted_append)
  then show ?thesis
    using ne by (simp add: diff_blocks_def concat_blocks_of)
qed

lemma diff_blocks_no_header: "header_starts d = [] \<Longrightarrow> diff_blocks d = []"
  by (simp add: diff_blocks_def blocks_of_def)

lemma preamble_blocks: "preamble d @ concat (diff_blocks d) = d"
proof (cases "header_starts d")
  case Nil
  then show ?thesis by (simp add: preamble_def diff_blocks_no_header)
next
  case (Cons s ss)
  then show ?thesis
    using concat_diff_blocks [of d] by (simp add: preamble_def)
qed

section \<open>Properties of filter\_out\_generated\_diffs\<close>

lemma block_is_gen_value:
  assumes "re_search lib rx (strip (block_path blk)) \<noteq> Inl OtherException"
  shows "block_is_gen lib globs rx markers blk
           = Inr ((\<exists>g \<in> set globs. fnmatch lib (strip (block_path blk)) g = Inr True)
                  \<or> (rx \<noteq> [] \<and> re_search lib rx (strip (block_path blk)) = Inr True)
                  \<or> has_generated_markers lib blk markers 120)"
  unfolding block_is_gen_def is_generated_path_value [OF assms]
  by (auto split: bool.splits)

lemma header_starts_Nil: "header_starts [] = []"
  by (simp add: header_starts_def finditer_def match_header_line_def ascii_def)

lemma filter_active_returns:
  assumes "cfg_enabled cfg" and "header_starts d \<noteq> []"
    and "filter_out_generated_diffs lib d cfg = Inr (out, skipped)"
  shows "out = concat (filter (\<lambda>b. \<not> is_skipped lib cfg b) (diff_blocks d))
       \<and> skipped = map skipped_name (filter (is_skipped lib cfg) (diff_blocks d))"
proof -
  have ne: "d \<noteq> []" using assms(2) header_starts_Nil by auto
  obtain kept' skipped' where
    loop: "filter_loop lib (cfg_globs cfg) (cfg_file_rx cfg) (cfg_markers cfg)
             (diff_blocks d) ([], []) = Inr (kept', skipped')"
    and out: "out = concat kept'" and sk: "skipped = skipped'"
    using assms ne
    by (auto simp: filter_out_generated_diffs_def split: sum.splits)
  have k: "filter (\<lambda>b. block_is_gen lib (cfg_globs cfg) (cfg_file_rx cfg) (cfg_markers cfg) b \<noteq> Inr True)
             (diff_blocks d) = filter (\<lambda>b. \<not> is_skipped lib cfg b) (diff_blocks d)"
    using assms(1) by (intro filter_cong) (simp_all add: is_skipped_def)
  have s: "filter (\<lambda>b. block_is_gen lib (cfg_globs cfg) (cfg_file_rx cfg) (cfg_markers cfg) b = Inr True)
             (diff_blocks d) = filter (is_skipped lib cfg) (diff_blocks d)"
    using assms(1) by (intro filter_cong) (simp_all add: is_skipped_def)
  from filter_loop_returns [OF loop] show ?thesis
    by (simp add: out sk k s)
qed

lemma filter_inactive:
  assumes "\<not> (cfg_enabled cfg \<and> header_starts d \<noteq> [])"
  shows "filter_out_generated_diffs lib d cfg = Inr (d, [])"
  using assms by (auto simp: filter_out_generated_diffs_def)

text \<open>
  The function raises exactly when filtering is enabled and the classification of one
  of the blocks raises; otherwise it returns.
\<close>

lemma filter_raises_iff:
  "isl (filter_out_generated_diffs lib d cfg)
     \<longleftrightarrow> cfg_enabled cfg
         \<and> (\<exists>b \<in> set (diff_blocks d).
               isl (block_is_gen lib (cfg_globs cfg) (cfg_file_rx cfg) (cfg_markers cfg) b))"
proof (cases "cfg_enabled cfg \<and> header_starts d \<noteq> []")
  case False
  have "\<not> isl (filter_out_generated_diffs lib d cfg)"
    by (simp add: filter_inactive [OF False])
  moreover have "cfg_enabled cfg \<Longrightarrow> diff_blocks d = []"
    using False by (simp add: diff_blocks_no_header)
  ultimately show ?thesis by auto
next
  case True
  have ne: "d \<noteq> []" using True header_starts_Nil by auto
  let ?loop = "filter_loop lib (cfg_globs cfg) (cfg_file_rx cfg) (cfg_markers cfg)
                 (diff_blocks d) ([], [])"
  have eq: "isl (filter_out_generated_diffs lib d cfg) = isl ?loop"
    using True ne by (auto simp: filter_out_generated_diffs_def split: sum.splits)
  show ?thesis
  proof (cases "\<exists>b \<in> set (diff_blocks d).
               isl (block_is_gen lib (cfg_globs cfg) (cfg_file_rx cfg) (cfg_markers cfg) b)")
    case raising: True
    then show ?thesis
      using eq True filter_loop_raises by blast
  next
    case quiet: False
    then have "\<forall>b \<in> set (diff_blocks d).
        \<not> isl (block_is_gen lib (cfg_globs cfg) (cfg_file_rx cfg) (cfg_markers cfg) b)"
      by simp
    from filter_loop_value [OF this, of "[]" "[]"] have "\<not> isl ?loop" by simp
    with eq quiet show ?thesis by simp
  qed
qed

text \<open>
  C4. For every diff text and rule set, what the function returns splits the file
  blocks of the input in two: the filtered text is the concatenation, in the order of
  the input, of the blocks that are not skipped (after the text before the first
  header, which is kept only when the function returns its input as it is), and the
  skipped list names the other blocks in the order of the input. Each block is on
  exactly one side, and the kept blocks are a subsequence of the blocks of the input.
\<close>

theorem filter_partitions_blocks:
  assumes "filter_out_generated_diffs lib d cfg = Inr (out, skipped)"
  shows "out = (if cfg_enabled cfg \<and> header_starts d \<noteq> [] then [] else preamble d)
                 @ concat (filter (\<lambda>b. \<not> is_skipped lib cfg b) (diff_blocks d))
       \<and> skipped = map skipped_name (filter (is_skipped lib cfg) (diff_blocks d))
       \<and> mset (filter (\<lambda>b. \<not> is_skipped lib cfg b) (diff_blocks d))
           + mset (filter (is_skipped lib cfg) (diff_blocks d)) = mset (diff_blocks d)
       \<and> subseq (filter (\<lambda>b. \<not> is_skipped lib cfg b) (diff_blocks d)) (diff_blocks d)"
proof -
  have run: "out = (if cfg_enabled cfg \<and> header_starts d \<noteq> [] then [] else preamble d)
                 @ concat (filter (\<lambda>b. \<not> is_skipped lib cfg b) (diff_blocks d))
       \<and> skipped = map skipped_name (filter (is_skipped lib cfg) (diff_blocks d))"
  proof (cases "cfg_enabled cfg \<and> header_starts d \<noteq> []")
    case True
    then show ?thesis
      using filter_active_returns [of cfg d lib out skipped] assms by simp
  next
    case False
    have none: "filter (is_skipped lib cfg) (diff_blocks d) = []"
    proof (cases "cfg_enabled cfg")
      case True
      with False have "header_starts d = []" by simp
      then show ?thesis by (simp add: diff_blocks_no_header)
    next
      case False
      then show ?thesis by (simp add: is_skipped_def)
    qed
    then have all: "filter (\<lambda>b. \<not> is_skipped lib cfg b) (diff_blocks d) = diff_blocks d"
      by (simp add: filter_empty_conv filter_id_conv)
    have "out = d" and "skipped = []"
      using assms filter_inactive [OF False, of lib] by simp_all
    then show ?thesis
      unfolding none all if_not_P [OF False] by (simp add: preamble_blocks)
  qed
  have "mset (filter (\<lambda>b. \<not> is_skipped lib cfg b) (diff_blocks d))
           + mset (filter (is_skipped lib cfg) (diff_blocks d)) = mset (diff_blocks d)"
    by (induction "diff_blocks d") auto
  then show ?thesis using run by simp
qed

theorem filter_partitions_blocks_witness:
  "filter_out_generated_diffs
        \<lparr>fnmatch = (\<lambda>p g. Inr (g = ascii ''*.min.js'' \<and> drop (length p - 7) p = ascii ''.min.js'')),
         re_search = (\<lambda>r p. Inr False), lower = (\<lambda>s. s)\<rparr>
        (ascii ''diff --git a/foo/bar.min.js b/foo/bar.min.js'' @ [LF] @ ascii ''+x'' @ [LF]
         @ ascii ''diff --git a/foo/bar.go b/foo/bar.go'' @ [LF] @ ascii ''+y'' @ [LF])
        \<lparr>skip_generated = None, generated_path_globs = Some [ascii ''*.min.js''],
         generated_file_regex = None, generated_header_markers = None\<rparr>
      = Inr (ascii ''diff --git a/foo/bar.go b/foo/bar.go'' @ [LF] @ ascii ''+y'' @ [LF],
             [ascii ''foo/bar.min.js''])
   \<and> [ascii ''foo/bar.min.js'']
      = map skipped_name
          (filter
            (is_skipped
               \<lparr>fnmatch = (\<lambda>p g. Inr (g = ascii ''*.min.js'' \<and> drop (length p - 7) p = ascii ''.min.js'')),
                re_search = (\<lambda>r p. Inr False), lower = (\<lambda>s. s)\<rparr>
               \<lparr>skip_generated = None, generated_path_globs = Some [ascii ''*.min.js''],
                generated_file_regex = None, generated_header_markers = None\<rparr>)
            (diff_blocks
               (ascii ''diff --git a/foo/bar.min.js b/foo/bar.min.js'' @ [LF] @ ascii ''+x'' @ [LF]
                @ ascii ''diff --git a/foo/bar.go b/foo/bar.go'' @ [LF] @ ascii ''+y'' @ [LF])))"
proof -
  let ?lib = "\<lparr>fnmatch = (\<lambda>p g. Inr (g = ascii ''*.min.js'' \<and> drop (length p - 7) p = ascii ''.min.js'')),
           re_search = (\<lambda>r p. Inr False), lower = (\<lambda>s. s)\<rparr>"
  let ?cfg = "\<lparr>skip_generated = None, generated_path_globs = Some [ascii ''*.min.js''],
             generated_file_regex = None, generated_header_markers = None\<rparr>"
  define b1 where "b1 = ascii ''diff --git a/foo/bar.min.js b/foo/bar.min.js'' @ [LF] @ ascii ''+x'' @ [LF]"
  define b2 where "b2 = ascii ''diff --git a/foo/bar.go b/foo/bar.go'' @ [LF] @ ascii ''+y'' @ [LF]"
  have hs: "header_starts (b1 @ b2) = [0, 48]"
    by (simp add: b1_def b2_def header_starts_def finditer_def match_header_line_def ascii_def
        LF_def eval_nat_numeral)
  have bs: "diff_blocks (b1 @ b2) = [b1, b2]"
  proof -
    have "length b1 = 48" "length b2 = 40" by (simp_all add: b1_def b2_def ascii_def)
    then show ?thesis
      unfolding diff_blocks_def hs by (simp add: blocks_of_def slice_def upt_rec)
  qed
  have p1: "block_path b1 = ascii ''foo/bar.min.js''"
    by (simp add: b1_def block_path_def search_def finditer_def match_header_line_def ascii_def
        LF_def eval_nat_numeral)
  have p2: "block_path b2 = ascii ''foo/bar.go''"
    by (simp add: b2_def block_path_def search_def finditer_def match_header_line_def ascii_def
        LF_def eval_nat_numeral)
  have g1: "block_is_gen ?lib [ascii ''*.min.js''] [] [] b1 = Inr True"
    unfolding block_is_gen_def p1
    by (simp add: is_generated_path_def strip_def is_space_def ascii_def)
  have g2: "block_is_gen ?lib [ascii ''*.min.js''] [] [] b2 = Inr False"
    unfolding block_is_gen_def p2
    by (simp add: is_generated_path_def has_generated_markers_def strip_def is_space_def ascii_def)
  have n1: "skipped_name b1 = ascii ''foo/bar.min.js''"
    unfolding skipped_name_def p1 by (simp add: ascii_def)
  have ne: "b1 @ b2 \<noteq> []" by (simp add: b1_def)
  have run: "filter_out_generated_diffs ?lib (b1 @ b2) ?cfg
               = Inr (b2, [ascii ''foo/bar.min.js''])"
    unfolding filter_out_generated_diffs_def bs hs
    using ne g1 g2 n1
    by (simp add: cfg_enabled_def cfg_globs_def cfg_file_rx_def cfg_markers_def)
  from filter_partitions_blocks [OF run]
  have "[ascii ''foo/bar.min.js'']
          = map skipped_name (filter (is_skipped ?lib ?cfg) (diff_blocks (b1 @ b2)))"
    by simp
  with run show ?thesis
    unfolding b1_def b2_def by simp
qed

text \<open>
  C10. When the group-b path of the header of a block begins with \<^verbatim>\<open>b/\<close>, the path
  the block is classified under is the rest after that prefix, which differs from the
  path of the header: the glob and regex rules are evaluated on the rest, and the name
  added to the skipped list is the rest (\<^verbatim>\<open>(unknown)\<close> when the rest is empty).
\<close>

theorem b_prefix_stripped:
  assumes "search blk = Some m" and "group_b m = ascii ''b/'' @ rest"
  shows "block_path blk = rest
       \<and> block_path blk \<noteq> group_b m
       \<and> block_is_gen lib globs rx markers blk =
           (case is_generated_path lib rest globs rx of
              Inl e \<Rightarrow> Inl e
            | Inr True \<Rightarrow> Inr True
            | Inr False \<Rightarrow> Inr (has_generated_markers lib blk markers 120))
       \<and> skipped_name blk = (if rest = [] then ascii ''(unknown)'' else rest)"
proof -
  have "length (ascii ''b/'') = 2" by (simp add: ascii_def)
  then have p: "block_path blk = rest"
    using assms by (simp add: block_path_def)
  have "rest \<noteq> ascii ''b/'' @ rest" by (simp add: ascii_def)
  with p assms(2) show ?thesis
    by (simp add: block_is_gen_def skipped_name_def)
qed

theorem b_prefix_stripped_witness:
  "search (ascii ''diff --git a/b/x.go b/b/x.go'' @ [LF] @ ascii ''+y'' @ [LF])
     = Some \<lparr>m_start = 0, group_a = ascii ''b/x.go'', group_b = ascii ''b/x.go''\<rparr>
   \<and> ascii ''b/x.go'' = ascii ''b/'' @ ascii ''x.go''
   \<and> block_path (ascii ''diff --git a/b/x.go b/b/x.go'' @ [LF] @ ascii ''+y'' @ [LF]) = ascii ''x.go''
   \<and> skipped_name (ascii ''diff --git a/b/x.go b/b/x.go'' @ [LF] @ ascii ''+y'' @ [LF]) = ascii ''x.go''"
proof -
  let ?blk = "ascii ''diff --git a/b/x.go b/b/x.go'' @ [LF] @ ascii ''+y'' @ [LF]"
  let ?m = "\<lparr>m_start = 0, group_a = ascii ''b/x.go'', group_b = ascii ''b/x.go''\<rparr>"
  have s: "search ?blk = Some ?m"
    by (simp add: search_def finditer_def match_header_line_def ascii_def LF_def
        eval_nat_numeral)
  have g: "group_b ?m = ascii ''b/'' @ ascii ''x.go''"
    by (simp add: ascii_def)
  have "ascii ''x.go'' \<noteq> []" by (simp add: ascii_def)
  with b_prefix_stripped [OF s g] s g show ?thesis
    by simp
qed

text \<open>
  With no glob, regex or marker rule nothing is skipped; the text returned is the
  input from its first header line on.
\<close>

lemma filter_no_rules:
  assumes "cfg_globs cfg = []" and "cfg_file_rx cfg = []" and "cfg_markers cfg = []"
  shows "filter_out_generated_diffs lib d cfg =
           Inr (if cfg_enabled cfg \<and> header_starts d \<noteq> [] then drop (hd (header_starts d)) d else d, [])"
proof (cases "cfg_enabled cfg \<and> header_starts d \<noteq> []")
  case True
  have ok: "\<forall>b \<in> set (diff_blocks d).
              \<not> isl (block_is_gen lib (cfg_globs cfg) (cfg_file_rx cfg) (cfg_markers cfg) b)"
    using assms by (simp add: block_is_gen_def is_generated_path_def)
  have ne: "d \<noteq> []" using True header_starts_Nil by auto
  have all: "filter (\<lambda>b. block_is_gen lib [] [] [] b \<noteq> Inr True) (diff_blocks d) = diff_blocks d"
    by (simp add: block_is_gen_def is_generated_path_def has_generated_markers_def)
  have nonef: "filter (\<lambda>b. block_is_gen lib [] [] [] b = Inr True) (diff_blocks d) = []"
    by (simp add: block_is_gen_def is_generated_path_def has_generated_markers_def)
  show ?thesis
    using True ne filter_loop_value [OF ok, of "[]" "[]"] concat_diff_blocks [of d]
    by (simp add: filter_out_generated_diffs_def assms all nonef)
next
  case False
  show ?thesis
    unfolding filter_inactive [OF False] if_not_P [OF False] ..
qed

text \<open>
  C3. With the default configuration (filtering enabled, no glob, regex or marker
  rule), a diff text with a line before its first header is not returned unchanged:
  that line is dropped.
\<close>

theorem filter_no_rules_drops_preamble:
  "filter_out_generated_diffs lib
     (ascii ''x'' @ [LF] @ ascii ''diff --git a/f b/f'' @ [LF])
     \<lparr>skip_generated = None, generated_path_globs = None,
      generated_file_regex = None, generated_header_markers = None\<rparr>
   = Inr (ascii ''diff --git a/f b/f'' @ [LF], [])"
proof -
  let ?d = "ascii ''x'' @ [LF] @ ascii ''diff --git a/f b/f'' @ [LF]"
  let ?cfg = "\<lparr>skip_generated = None, generated_path_globs = None,
      generated_file_regex = None, generated_header_markers = None\<rparr>"
  have hs: "header_starts ?d = [2]"
    by (simp add: header_starts_def finditer_def match_header_line_def ascii_def LF_def
        eval_nat_numeral)
  have r: "filter_out_generated_diffs lib ?d ?cfg =
           Inr (if cfg_enabled ?cfg \<and> header_starts ?d \<noteq> []
                then drop (hd (header_starts ?d)) ?d else ?d, [])"
    by (rule filter_no_rules) (simp_all add: cfg_globs_def cfg_file_rx_def cfg_markers_def)
  have "filter_out_generated_diffs lib ?d ?cfg = Inr (drop 2 ?d, [])"
    unfolding r hs by (simp add: cfg_enabled_def)
  then show ?thesis by (simp add: ascii_def)
qed

section \<open>Properties of the loops over the models\<close>

lemma dict_setitem_fresh: "k \<notin> fst ` set d \<Longrightarrow> dict_setitem d k v = d @ [(k, v)]"
  by (induction d) auto

lemma fold_record_review:
  assumes "distinct ms" and "set ms \<inter> fst ` set results = {}"
    and "set ms \<inter> fst ` set errors = {}"
  shows "fold record_review (map (run_one call) ms) (results, errors)
           = (results @ map (\<lambda>m. (m, review_entry (call m))) ms,
              errors @ error_entries call ms)"
  using assms
proof (induction ms arbitrary: results errors)
  case Nil
  then show ?case by simp
next
  case (Cons m ms)
  have fr: "m \<notin> fst ` set results" and fe: "m \<notin> fst ` set errors"
    using Cons.prems by auto
  show ?case
  proof (cases "call m")
    case (Inl msg)
    have step: "record_review (run_one call m) (results, errors)
                  = (results @ [(m, [])], errors @ [(m, msg)])"
      using Inl fr fe by (simp add: run_one_def dict_setitem_fresh)
    have "fold record_review (map (run_one call) ms) (results @ [(m, [])], errors @ [(m, msg)])
            = ((results @ [(m, [])]) @ map (\<lambda>m. (m, review_entry (call m))) ms,
               (errors @ [(m, msg)]) @ error_entries call ms)"
      using Cons.prems by (intro Cons.IH) auto
    then show ?thesis
      using step Inl by (simp add: review_entry_def)
  next
    case (Inr res2)
    have step: "record_review (run_one call m) (results, errors)
                  = (results @ [(m, or_empty res2)], errors)"
      using Inr fr by (simp add: run_one_def dict_setitem_fresh)
    have "fold record_review (map (run_one call) ms) (results @ [(m, or_empty res2)], errors)
            = ((results @ [(m, or_empty res2)]) @ map (\<lambda>m. (m, review_entry (call m))) ms,
               errors @ error_entries call ms)"
      using Cons.prems by (intro Cons.IH) auto
    then show ?thesis
      using step Inr by (simp add: review_entry_def)
  qed
qed

lemma fold_record_summary:
  assumes "distinct ms" and "set ms \<inter> fst ` set results = {}"
    and "set ms \<inter> fst ` set errors = {}"
  shows "fold record_summary (map (run_one call) ms) (results, errors)
           = (results @ map (\<lambda>m. (m, summary_entry (call m))) ms,
              errors @ error_entries call ms)"
  using assms
proof (induction ms arbitrary: results errors)
  case Nil
  then show ?case by simp
next
  case (Cons m ms)
  have fr: "m \<notin> fst ` set results" and fe: "m \<notin> fst ` set errors"
    using Cons.prems by auto
  show ?case
  proof (cases "call m")
    case (Inl msg)
    have step: "record_summary (run_one call m) (results, errors)
                  = (results @ [(m, Some [])], errors @ [(m, msg)])"
      using Inl fr fe by (simp add: run_one_def dict_setitem_fresh)
    have "fold record_summary (map (run_one call) ms) (results @ [(m, Some [])], errors @ [(m, msg)])
            = ((results @ [(m, Some [])]) @ map (\<lambda>m. (m, summary_entry (call m))) ms,
               (errors @ [(m, msg)]) @ error_entries call ms)"
      using Cons.prems by (intro Cons.IH) auto
    then show ?thesis
      using step Inl by (simp add: summary_entry_def)
  next
    case (Inr res)
    have step: "record_summary (run_one call m) (results, errors)
                  = (results @ [(m, res)], errors)"
      using Inr fr by (simp add: run_one_def dict_setitem_fresh)
    have "fold record_summary (map (run_one call) ms) (results @ [(m, res)], errors)
            = ((results @ [(m, res)]) @ map (\<lambda>m. (m, summary_entry (call m))) ms,
               errors @ error_entries call ms)"
      using Cons.prems by (intro Cons.IH) auto
    then show ?thesis
      using step Inr by (simp add: summary_entry_def)
  qed
qed

lemma schedule_indices: "is_schedule completion n \<Longrightarrow> set completion = {0..<n}"
  unfolding is_schedule_def by (metis mset_eq_setD set_upt)

lemma as_completed_map:
  assumes "is_schedule completion (length ms)"
  shows "as_completed completion (map f ms) = map f (map ((!) ms) completion)"
  using schedule_indices [OF assms] by (auto simp: as_completed_def)

lemma mset_processing_order:
  assumes "is_schedule completion (length ms)"
  shows "mset (processing_order ms par completion) = mset ms"
proof (cases par)
  case True
  have "mset (map ((!) ms) completion) = image_mset ((!) ms) (mset completion)"
    by (simp only: mset_map)
  also have "\<dots> = image_mset ((!) ms) (mset [0..<length ms])"
    using assms by (simp only: is_schedule_def)
  also have "\<dots> = mset (map ((!) ms) [0..<length ms])"
    by (simp only: mset_map)
  also have "\<dots> = mset ms" by (simp only: map_nth)
  finally show ?thesis using True by (simp add: processing_order_def)
next
  case False
  then show ?thesis by (simp add: processing_order_def)
qed

lemma distinct_processing_order:
  assumes "is_schedule completion (length ms)" and "distinct ms"
  shows "distinct (processing_order ms par completion)"
  using mset_processing_order [OF assms(1), of par] assms(2)
  by (metis mset_eq_imp_distinct_iff)

lemma set_processing_order:
  assumes "is_schedule completion (length ms)"
  shows "set (processing_order ms par completion) = set ms"
  using mset_processing_order [OF assms, of par] by (metis mset_eq_setD)

lemma length_processing_order:
  assumes "is_schedule completion (length ms)"
  shows "length (processing_order ms par completion) = length ms"
  using mset_processing_order [OF assms, of par] by (metis mset_eq_length)

lemma on_review_run_models_value:
  assumes "distinct ms" and "is_schedule completion (length ms)"
  shows "on_review_run_models call ms par completion
           = (map (\<lambda>m. (m, review_entry (call m))) (processing_order ms par completion),
              error_entries call (processing_order ms par completion))"
proof -
  have d: "distinct (processing_order ms par completion)"
    using assms by (simp add: distinct_processing_order)
  have ac: "as_completed completion (map (run_one call) ms)
              = map (run_one call) (map ((!) ms) completion)"
    by (rule as_completed_map [OF assms(2)])
  have "on_review_run_models call ms par completion
          = fold record_review (map (run_one call) (processing_order ms par completion)) ([], [])"
    unfolding on_review_run_models_def processing_order_def Let_def ac
    by (cases par) simp_all
  then show ?thesis
    using fold_record_review [OF d, of "[]" "[]" call] by simp
qed

lemma file_history_run_models_value:
  assumes "distinct ms" and "is_schedule completion (length ms)"
  shows "file_history_run_models call ms par completion
           = (map (\<lambda>m. (m, summary_entry (call m))) (processing_order ms par completion),
              error_entries call (processing_order ms par completion))"
proof -
  have d: "distinct (processing_order ms par completion)"
    using assms by (simp add: distinct_processing_order)
  have ac: "as_completed completion (map (run_one call) ms)
              = map (run_one call) (map ((!) ms) completion)"
    by (rule as_completed_map [OF assms(2)])
  have "file_history_run_models call ms par completion
          = fold record_summary (map (run_one call) (processing_order ms par completion)) ([], [])"
    unfolding file_history_run_models_def processing_order_def Let_def ac
    by (cases par) simp_all
  then show ?thesis
    using fold_record_summary [OF d, of "[]" "[]" call] by simp
qed

lemma map_of_entries:
  "m \<in> set ms \<Longrightarrow> map_of (map (\<lambda>m. (m, f m)) ms) m = Some (f m)"
  by (induction ms) auto

lemma error_entries_none:
  "\<forall>m \<in> set ms. \<not> isl (call m) \<Longrightarrow> error_entries call ms = []"
  by (induction ms) (auto split: sum.splits)

lemma error_entries_one:
  assumes "distinct ms" and "failed \<in> set ms" and "call failed = Inl msg"
    and "\<forall>m \<in> set ms. m \<noteq> failed \<longrightarrow> \<not> isl (call m)"
  shows "error_entries call ms = [(failed, msg)]"
  using assms
proof (induction ms)
  case Nil
  then show ?case by simp
next
  case (Cons m ms)
  show ?case
  proof (cases "m = failed")
    case True
    then have "failed \<notin> set ms" using Cons.prems(1) by simp
    then have "\<forall>x \<in> set ms. \<not> isl (call x)" using Cons.prems(4) by auto
    then show ?thesis
      using True Cons.prems(3) by (simp add: error_entries_none)
  next
    case False
    then have "\<not> isl (call m)" using Cons.prems(4) by simp
    moreover have "error_entries call ms = [(failed, msg)]"
      using Cons.prems False by (intro Cons.IH) auto
    ultimately show ?thesis by (auto split: sum.splits)
  qed
qed

text \<open>
  C6. When the selected backends are distinct (they are the keys of a dict) and exactly
  one of them, \<open>failed\<close>, raises, then in either mode and for every order of
  completion: the result map has one entry for each backend; the entry of \<open>failed\<close> is
  the empty string; the entry of every other backend is its output (\<^verbatim>\<open>None\<close> read as
  the empty string); the error map is the single entry of \<open>failed\<close> with the message of
  its exception, so the error sits under the key that holds the empty placeholder;
  and the entries of the other backends are what they are when \<open>failed\<close> has any
  other outcome \<open>r\<close>.
\<close>

theorem one_backend_fails:
  assumes "distinct selected_models"
    and "is_schedule completion (length selected_models)"
    and "failed \<in> set selected_models"
    and "call failed = Inl msg"
    and "\<forall>m \<in> set selected_models. m \<noteq> failed \<longrightarrow> \<not> isl (call m)"
    and "on_review_run_models call selected_models par completion = (results, errors)"
  shows "length results = length selected_models
       \<and> distinct (map fst results)
       \<and> set (map fst results) = set selected_models
       \<and> map_of results failed = Some []
       \<and> (\<forall>m \<in> set selected_models. m \<noteq> failed \<longrightarrow>
             map_of results m = Some (review_entry (call m)))
       \<and> errors = [(failed, msg)]
       \<and> (\<forall>m \<in> set selected_models. m \<noteq> failed \<longrightarrow>
             map_of (fst (on_review_run_models (call(failed := r)) selected_models par completion)) m
               = map_of results m)"
proof -
  let ?po = "processing_order selected_models par completion"
  have res: "results = map (\<lambda>m. (m, review_entry (call m))) ?po"
    and err: "errors = error_entries call ?po"
    using on_review_run_models_value [OF assms(1,2), of call par] assms(6) by simp_all
  have keys: "map fst results = ?po"
    by (simp add: res comp_def)
  have s: "set ?po = set selected_models"
    by (rule set_processing_order [OF assms(2)])
  have d: "distinct ?po"
    by (rule distinct_processing_order [OF assms(2,1)])
  have look: "\<And>m. m \<in> set selected_models \<Longrightarrow> map_of results m = Some (review_entry (call m))"
    unfolding res using s by (intro map_of_entries) simp
  have "length results = length selected_models"
    by (simp add: res length_processing_order [OF assms(2)])
  moreover have "map_of results failed = Some []"
    using look [OF assms(3)] assms(4) by (simp add: review_entry_def)
  moreover have "errors = [(failed, msg)]"
    unfolding err using d assms(3,4,5) s by (intro error_entries_one) simp_all
  moreover have "\<forall>m \<in> set selected_models. m \<noteq> failed \<longrightarrow>
       map_of (fst (on_review_run_models (call(failed := r)) selected_models par completion)) m
         = map_of results m"
  proof (intro ballI impI)
    fix m assume m: "m \<in> set selected_models" "m \<noteq> failed"
    have "map_of (fst (on_review_run_models (call(failed := r)) selected_models par completion)) m
            = Some (review_entry ((call(failed := r)) m))"
      unfolding on_review_run_models_value [OF assms(1,2)] fst_conv
      using m(1) s by (intro map_of_entries) simp
    then show "map_of (fst (on_review_run_models (call(failed := r)) selected_models par completion)) m
                 = map_of results m"
      using look [OF m(1)] m(2) by simp
  qed
  ultimately show ?thesis
    using keys d s look by simp
qed

theorem one_backend_fails_witness:
  "distinct [ascii ''m1'', ascii ''m2'']
   \<and> is_schedule [1, 0] (length [ascii ''m1'', ascii ''m2''])
   \<and> on_review_run_models
        (\<lambda>m. if m = ascii ''m1'' then Inl (ascii ''boom'') else Inr (Some (ascii ''ok'')))
        [ascii ''m1'', ascii ''m2''] True [1, 0]
      = ([(ascii ''m2'', ascii ''ok''), (ascii ''m1'', [])], [(ascii ''m1'', ascii ''boom'')])"
proof -
  let ?call = "\<lambda>m. if m = ascii ''m1'' then Inl (ascii ''boom'') else Inr (Some (ascii ''ok''))"
  let ?ms = "[ascii ''m1'', ascii ''m2'']"
  have d: "distinct ?ms" by (simp add: ascii_def)
  have sch: "is_schedule [1, 0] (length ?ms)"
    by (simp add: is_schedule_def upt_rec)
  have f: "ascii ''m1'' \<in> set ?ms" by simp
  have c: "?call (ascii ''m1'') = Inl (ascii ''boom'')" by simp
  have o: "\<forall>m \<in> set ?ms. m \<noteq> ascii ''m1'' \<longrightarrow> \<not> isl (?call m)" by simp
  obtain results errors where
    run: "on_review_run_models ?call ?ms True [1, 0] = (results, errors)"
    by (cases "on_review_run_models ?call ?ms True [1, 0]")
  have val: "on_review_run_models ?call ?ms True [1, 0]
          = ([(ascii ''m2'', ascii ''ok''), (ascii ''m1'', [])], [(ascii ''m1'', ascii ''boom'')])"
    by (simp add: on_review_run_models_def as_completed_def run_one_def or_empty_def ascii_def)
  from one_backend_fails [OF d sch f c o run]
  have "errors = [(ascii ''m1'', ascii ''boom'')]" by simp
  with d sch val show ?thesis by simp
qed

text \<open>
  C7, as amended. When the selected backends are distinct and every call returns, then
  in either mode and for every order of completion the result map has one entry for
  each backend, holding its output with \<^verbatim>\<open>None\<close> read as the empty string, so that an
  entry is non-empty exactly when the backend returned a non-empty text, and the error
  map is empty.
\<close>

theorem all_backends_succeed:
  assumes "distinct selected_models"
    and "is_schedule completion (length selected_models)"
    and "\<forall>m \<in> set selected_models. \<not> isl (call m)"
    and "on_review_run_models call selected_models par completion = (results, errors)"
  shows "length results = length selected_models
       \<and> distinct (map fst results)
       \<and> set (map fst results) = set selected_models
       \<and> (\<forall>m \<in> set selected_models.
             map_of results m = Some (or_empty (projr (call m)))
             \<and> (map_of results m \<noteq> Some [] \<longleftrightarrow>
                  (\<exists>out. call m = Inr (Some out) \<and> out \<noteq> [])))
       \<and> errors = []"
proof -
  let ?po = "processing_order selected_models par completion"
  have res: "results = map (\<lambda>m. (m, review_entry (call m))) ?po"
    and err: "errors = error_entries call ?po"
    using on_review_run_models_value [OF assms(1,2), of call par] assms(4) by simp_all
  have keys: "map fst results = ?po"
    by (simp add: res comp_def)
  have s: "set ?po = set selected_models"
    by (rule set_processing_order [OF assms(2)])
  have d: "distinct ?po"
    by (rule distinct_processing_order [OF assms(2,1)])
  have look: "\<And>m. m \<in> set selected_models \<Longrightarrow> map_of results m = Some (review_entry (call m))"
    unfolding res using s by (intro map_of_entries) simp
  have entry: "\<And>m. m \<in> set selected_models \<Longrightarrow>
      map_of results m = Some (or_empty (projr (call m)))
      \<and> (map_of results m \<noteq> Some [] \<longleftrightarrow> (\<exists>out. call m = Inr (Some out) \<and> out \<noteq> []))"
  proof -
    fix m assume m: "m \<in> set selected_models"
    then obtain res2 where c: "call m = Inr res2"
      using assms(3) by (cases "call m") auto
    show "map_of results m = Some (or_empty (projr (call m)))
      \<and> (map_of results m \<noteq> Some [] \<longleftrightarrow> (\<exists>out. call m = Inr (Some out) \<and> out \<noteq> []))"
      using look [OF m] c by (cases res2) (simp_all add: review_entry_def or_empty_def)
  qed
  have "errors = []"
    unfolding err using assms(3) s by (intro error_entries_none) simp
  moreover have "length results = length selected_models"
    by (simp add: res length_processing_order [OF assms(2)])
  ultimately show ?thesis
    using keys d s entry by simp
qed

theorem all_backends_succeed_witness:
  "distinct [ascii ''m1'', ascii ''m2'']
   \<and> is_schedule [1, 0] (length [ascii ''m1'', ascii ''m2''])
   \<and> on_review_run_models
        (\<lambda>m. if m = ascii ''m1'' then Inr None else Inr (Some (ascii ''ok'')))
        [ascii ''m1'', ascii ''m2''] True [1, 0]
      = ([(ascii ''m2'', ascii ''ok''), (ascii ''m1'', [])], [])"
proof -
  let ?call = "\<lambda>m. if m = ascii ''m1'' then Inr None else Inr (Some (ascii ''ok''))"
  let ?ms = "[ascii ''m1'', ascii ''m2'']"
  have d: "distinct ?ms" by (simp add: ascii_def)
  have sch: "is_schedule [1, 0] (length ?ms)"
    by (simp add: is_schedule_def upt_rec)
  have o: "\<forall>m \<in> set ?ms. \<not> isl (?call m)" by simp
  obtain results errors where
    run: "on_review_run_models ?call ?ms True [1, 0] = (results, errors)"
    by (cases "on_review_run_models ?call ?ms True [1, 0]")
  have val: "fst (on_review_run_models ?call ?ms True [1, 0])
          = [(ascii ''m2'', ascii ''ok''), (ascii ''m1'', [])]"
    by (simp add: on_review_run_models_def as_completed_def run_one_def or_empty_def ascii_def)
  from all_backends_succeed [OF d sch o run]
  have "errors = []" by simp
  with run val have "on_review_run_models ?call ?ms True [1, 0]
      = ([(ascii ''m2'', ascii ''ok''), (ascii ''m1'', [])], [])"
    by simp
  with d sch show ?thesis by simp
qed

text \<open>
  C7, as stated, fails: a backend that returns the empty string has succeeded, and its
  entry in the result map is empty.
\<close>

theorem successful_backend_empty_entry:
  "on_review_run_models (\<lambda>m. Inr (Some [])) [ascii ''m1''] False []
     = ([(ascii ''m1'', [])], [])"
  by (simp add: on_review_run_models_def run_one_def or_empty_def)

section \<open>Properties of the synthesis\<close>

text \<open>
  The result map of the file history tab lists the backends in the order in which the
  loop recorded them; in sequential mode that is the order of the caller.
\<close>

lemma file_history_results_order:
  assumes "distinct ms" and "is_schedule completion (length ms)"
  shows "map fst (fst (file_history_run_models call ms par completion))
           = processing_order ms par completion"
  unfolding file_history_run_models_value [OF assms] by (simp add: comp_def)

lemma synthesis_sources_sequential:
  assumes "distinct ms"
  shows "synthesis_sources (fst (file_history_run_models call ms False completion))
           = synthesis_sources (map (\<lambda>m. (m, summary_entry (call m))) ms)"
proof -
  have "file_history_run_models call ms False completion
          = fold record_summary (map (run_one call) ms) ([], [])"
    by (simp add: file_history_run_models_def)
  then show ?thesis
    using fold_record_summary [OF assms, of "[]" "[]" call] by simp
qed

text \<open>
  C2. In parallel mode the context sent to the base backend follows the order of
  completion: with two backends that both return a text, the context lists \<open>m2\<close>
  before \<open>m1\<close> when \<open>m2\<close> finishes first, and \<open>m1\<close> before \<open>m2\<close> otherwise.
\<close>

theorem synthesis_context_follows_completion_order:
  "synthesis_context (fst (file_history_run_models
      (\<lambda>m. if m = ascii ''m1'' then Inr (Some (ascii ''A'')) else Inr (Some (ascii ''B'')))
      [ascii ''m1'', ascii ''m2''] True [1, 0]))
     = ascii ''### Model: m2'' @ [LF] @ ascii ''B'' @ [LF, LF]
       @ ascii ''### Model: m1'' @ [LF] @ ascii ''A''
   \<and> synthesis_context (fst (file_history_run_models
      (\<lambda>m. if m = ascii ''m1'' then Inr (Some (ascii ''A'')) else Inr (Some (ascii ''B'')))
      [ascii ''m1'', ascii ''m2''] True [0, 1]))
     = ascii ''### Model: m1'' @ [LF] @ ascii ''A'' @ [LF, LF]
       @ ascii ''### Model: m2'' @ [LF] @ ascii ''B''"
  by (simp add: file_history_run_models_def as_completed_def run_one_def
      synthesis_context_def ascii_def)

lemma synthesis_sources_all_empty:
  "\<forall>(m, content) \<in> set summaries. content = None \<or> content = Some []
     \<Longrightarrow> synthesis_sources summaries = []"
  by (induction summaries) (auto split: option.splits)

text \<open>
  C9. When every entry of the result map is empty (\<^verbatim>\<open>None\<close> or the empty string), the
  context message is \<^verbatim>\<open>No sources.\<close>; with a client at hand the reducer makes the one
  call to the base backend with that message in the place of the context and returns
  what the call returns: it raises nothing of its own, and returns the artifact
  whenever the call returns one.
\<close>

theorem all_empty_sends_no_sources:
  assumes "\<forall>(m, content) \<in> set summaries_by_model. content = None \<or> content = Some []"
  shows "synthesis_context summaries_by_model = ascii ''No sources.''
       \<and> synthesis_messages (system, template, hint) summaries_by_model meta
           = [System_message system, User_message template,
              User_message (str_join [LF] (synthesis_header meta hint)),
              User_message synth_user,
              User_message (ascii ''No sources.'')]
       \<and> synthesize_file_history_with_base (Inr client) (system, template, hint)
             base_model summaries_by_model meta
           = client base_model
               [System_message system, User_message template,
                User_message (str_join [LF] (synthesis_header meta hint)),
                User_message synth_user,
                User_message (ascii ''No sources.'')]
       \<and> (client base_model (synthesis_messages (system, template, hint) summaries_by_model meta)
             = Inr artifact
           \<longrightarrow> synthesize_file_history_with_base (Inr client) (system, template, hint)
                 base_model summaries_by_model meta = Inr artifact)"
proof -
  have c: "synthesis_context summaries_by_model = ascii ''No sources.''"
    using synthesis_sources_all_empty [OF assms] by (simp add: synthesis_context_def)
  then show ?thesis
    by (simp add: synthesis_messages_def synthesize_file_history_with_base_def)
qed

theorem all_empty_sends_no_sources_witness:
  "synthesis_context [(ascii ''m1'', Some []), (ascii ''m2'', None)] = ascii ''No sources.''
   \<and> synthesize_file_history_with_base
        (Inr (\<lambda>model msgs. if last msgs = User_message (ascii ''No sources.'')
                            then Inr (Some (ascii ''ok'')) else Inl OtherException))
        (ascii ''s'', ascii ''t'', ascii ''h'') (ascii ''base'')
        [(ascii ''m1'', Some []), (ascii ''m2'', None)]
        \<lparr>meta_owner = ascii ''o'', meta_repo = ascii ''r'', meta_path = ascii ''p'',
         meta_selected_shas = [], meta_selected_count = 0, meta_filtered_count = 0\<rparr>
      = Inr (Some (ascii ''ok''))"
proof -
  let ?s = "[(ascii ''m1'', Some []), (ascii ''m2'', None)] :: (pystr, pystr option) pydict"
  have h: "\<forall>(m, content) \<in> set ?s. content = None \<or> content = Some []"
    by simp
  from all_empty_sends_no_sources [OF h] show ?thesis
    by simp
qed

end
